theory Spec2Isabelle
  imports Complex_Main
begin

section \<open>Builders, events and the Runner object\<close>

text \<open>
  The embedding follows \<^verbatim>\<open>maggma/runner.py\<close>. A builder is an object of the caller's:
  the Runner reads its \<^verbatim>\<open>sources\<close> and \<^verbatim>\<open>targets\<close> and calls its five methods. The model
  keeps what the Runner can observe of a builder: the two name lists, the items that
  \<^verbatim>\<open>get_items()\<close> yields, and \<^verbatim>\<open>process_item\<close> as a function that either raises or returns
  a mapping. The calls \<^verbatim>\<open>connect\<close>, \<^verbatim>\<open>get_items\<close>, \<^verbatim>\<open>process_item\<close>, \<^verbatim>\<open>update_targets\<close> and
  \<^verbatim>\<open>finalize\<close> are effects: each one is appended to the trace of the state, in the order
  in which the code performs it.
\<close>

datatype exn = ImportError | IndexError | StopIteration | ValueError | WorkerError

record ('i, 'k, 'v) builder =
  sources :: "string list"
  targets :: "string list"
  get_items :: "'i list"
  process_item :: "'i \<Rightarrow> exn + ('k \<rightharpoonup> 'v)"

datatype ('i, 'k, 'v) event =
    Connect nat bool
  | GetItems nat
  | ProcessItem nat 'i
  | UpdateTargets nat "'k \<rightharpoonup> 'v"
  | Finalize nat
  | Send "(nat \<times> 'i) option" nat
  | Recv

datatype queue_impl = MultiprocessingQueue | PlainQueue

datatype dict_impl = ManagerDict | PlainDict

text \<open>
  The attributes of a \<^verbatim>\<open>Runner\<close>, followed by the part of the world the coordinating
  process sees: the trace of builder and communicator calls made so far, the size of
  \<^verbatim>\<open>MPI.COMM_WORLD\<close>, the messages that \<^verbatim>\<open>comm.recv()\<close> will deliver to rank 0 (a received
  mapping, or a failure of the receive), and the order in which the operating system
  lets the worker processes of the local pool take their turns.
  \<^verbatim>\<open>defaultdict(list)\<close> is represented by its lookup function: a key that was never
  appended to reads as the empty list.
\<close>

record ('i, 'k, 'v) runner =
  builders :: "('i, 'k, 'v) builder list"
  use_mpi :: bool
  num_workers :: int
  queue_impl :: "queue_impl option"
  dict_impl :: "dict_impl option"
  queue :: "(nat \<times> 'i) list"
  processed_items :: "'k \<rightharpoonup> 'v"
  dependency_graph :: "nat \<Rightarrow> nat list"
  has_run :: "nat list"
  status :: "bool list"
  trace :: "('i, 'k, 'v) event list"
  comm_size :: nat
  comm_inbox :: "(exn + ('k \<rightharpoonup> 'v)) list"
  schedule :: "nat list"

record ('k, 'v) world =
  mpi4py_importable :: bool
  world_size :: nat
  world_inbox :: "(exn + ('k \<rightharpoonup> 'v)) list"
  world_schedule :: "nat list"

text \<open>
  How a call ends: it returns a value, it raises, or it never returns because a
  blocking receive waits for a message that does not come. Each case carries the state
  the Runner is left in.
\<close>

datatype ('a, 'r) outcome = Ok 'a 'r | Raised exn 'r | Blocked 'r

fun state_of :: "('a, 'r) outcome \<Rightarrow> 'r" where
  "state_of (Ok a r) = r"
| "state_of (Raised e r) = r"
| "state_of (Blocked r) = r"

definition emit :: "('i, 'k, 'v) event \<Rightarrow> ('i, 'k, 'v) runner \<Rightarrow> ('i, 'k, 'v) runner" where
  "emit e r = r\<lparr>trace := trace r @ [e]\<rparr>"

section \<open>The dependency graph\<close>

text \<open>
  \<^verbatim>\<open>_get_builder_dependency_graph\<close>: three nested loops; the innermost appends \<open>j\<close> to
  \<^verbatim>\<open>links_dict[i]\<close> once for every source name of builder \<open>i\<close> found among the targets of
  builder \<open>j\<close>.
\<close>

definition dd_append :: "(nat \<Rightarrow> nat list) \<Rightarrow> nat \<Rightarrow> nat \<Rightarrow> (nat \<Rightarrow> nat list)" where
  "dd_append links i j = links(i := links i @ [j])"

fun link_sources ::
  "nat \<Rightarrow> nat \<Rightarrow> string list \<Rightarrow> string list \<Rightarrow> (nat \<Rightarrow> nat list) \<Rightarrow> (nat \<Rightarrow> nat list)" where
  "link_sources i j [] tj links = links"
| "link_sources i j (s # ss) tj links =
     link_sources i j ss tj (if s \<in> set tj then dd_append links i j else links)"

fun link_targets ::
  "nat \<Rightarrow> ('i, 'k, 'v) builder \<Rightarrow> (nat \<times> ('i, 'k, 'v) builder) list \<Rightarrow>
   (nat \<Rightarrow> nat list) \<Rightarrow> (nat \<Rightarrow> nat list)" where
  "link_targets i bi [] links = links"
| "link_targets i bi ((j, bj) # rest) links =
     link_targets i bi rest
       (if i \<noteq> j then link_sources i j (sources bi) (targets bj) links else links)"

fun link_builders ::
  "(nat \<times> ('i, 'k, 'v) builder) list \<Rightarrow> ('i, 'k, 'v) builder list \<Rightarrow>
   (nat \<Rightarrow> nat list) \<Rightarrow> (nat \<Rightarrow> nat list)" where
  "link_builders [] bs links = links"
| "link_builders ((i, bi) # rest) bs links =
     link_builders rest bs (link_targets i bi (enumerate 0 bs) links)"

definition get_builder_dependency_graph :: "('i, 'k, 'v) builder list \<Rightarrow> nat \<Rightarrow> nat list" where
  "get_builder_dependency_graph bs = link_builders (enumerate 0 bs) bs (\<lambda>_. [])"

text \<open>The relation "builder \<open>i\<close> depends on builder \<open>j\<close>" that the graph stores.\<close>

definition depends_on :: "(nat \<Rightarrow> nat list) \<Rightarrow> (nat \<times> nat) set" where
  "depends_on g = {(i, j). j \<in> set (g i)}"

section \<open>Construction\<close>

text \<open>
  \<^verbatim>\<open>Runner.__init__\<close>. With \<^verbatim>\<open>use_mpi\<close> the attributes \<^verbatim>\<open>_queue\<close> and \<^verbatim>\<open>processed_items\<close> are
  never assigned (\<open>None\<close> below), and the import of \<^verbatim>\<open>mpi4py\<close> is attempted: when it fails
  the constructor raises \<^verbatim>\<open>ImportError\<close>.
\<close>

definition Runner_init ::
  "('i, 'k, 'v) builder list \<Rightarrow> bool \<Rightarrow> int \<Rightarrow> ('k, 'v) world \<Rightarrow> exn + ('i, 'k, 'v) runner" where
  "Runner_init bs mpi nw w =
     (let n = (if \<not> mpi then nw else 1);
          impls = (if \<not> mpi
                   then (if n > 1 then (Some MultiprocessingQueue, Some ManagerDict)
                         else (Some PlainQueue, Some PlainDict))
                   else (None, None))
      in if mpi \<and> \<not> mpi4py_importable w then Inl ImportError
         else Inr \<lparr>builders = bs, use_mpi = mpi, num_workers = n,
                   queue_impl = fst impls, dict_impl = snd impls,
                   queue = [], processed_items = Map.empty,
                   dependency_graph = get_builder_dependency_graph bs,
                   has_run = [], status = [],
                   trace = [], comm_size = world_size w, comm_inbox = world_inbox w,
                   schedule = world_schedule w\<rparr>)"

section \<open>The distributed backend, as run by the coordinator\<close>

text \<open>
  \<^verbatim>\<open>_run_builder_in_mpi\<close> on rank 0. \<^verbatim>\<open>cycle(range(1, size))\<close> is represented by the number
  of \<^verbatim>\<open>next()\<close> calls made so far; on an empty range the first \<^verbatim>\<open>next()\<close> raises
  \<^verbatim>\<open>StopIteration\<close>.
\<close>

definition next_worker :: "nat \<Rightarrow> nat \<Rightarrow> exn + nat" where
  "next_worker sz c = (if sz \<le> 1 then Inl StopIteration else Inr (1 + c mod (sz - 1)))"

fun send_items ::
  "nat \<Rightarrow> 'i list \<Rightarrow> nat \<Rightarrow> nat \<Rightarrow> ('i, 'k, 'v) runner \<Rightarrow> (nat \<times> nat, ('i, 'k, 'v) runner) outcome" where
  "send_items bid [] c n r = Ok (c, n) r"
| "send_items bid (item # items) c n r =
     (case next_worker (comm_size r) c of
        Inl e \<Rightarrow> Raised e r
      | Inr dest \<Rightarrow> send_items bid items (Suc c) (Suc n) (emit (Send (Some (bid, item)) dest) r))"

fun recv_results ::
  "nat \<Rightarrow> ('k \<rightharpoonup> 'v) \<Rightarrow> ('i, 'k, 'v) runner \<Rightarrow> ('k \<rightharpoonup> 'v, ('i, 'k, 'v) runner) outcome" where
  "recv_results 0 d r = Ok d r"
| "recv_results (Suc m) d r =
     (case comm_inbox r of
        [] \<Rightarrow> Blocked (emit Recv r)
      | Inl e # rest \<Rightarrow> Raised e (emit Recv (r\<lparr>comm_inbox := rest\<rparr>))
      | Inr p # rest \<Rightarrow>
          recv_results m (d ++ p)
            (emit Recv (r\<lparr>comm_inbox := rest\<rparr>)\<lparr>status := status r @ [True]\<rparr>))"

fun kill_workers ::
  "nat \<Rightarrow> nat \<Rightarrow> ('i, 'k, 'v) runner \<Rightarrow> (nat, ('i, 'k, 'v) runner) outcome" where
  "kill_workers 0 c r = Ok c r"
| "kill_workers (Suc m) c r =
     (case next_worker (comm_size r) c of
        Inl e \<Rightarrow> Raised e r
      | Inr dest \<Rightarrow> kill_workers m (Suc c) (emit (Send None dest) r))"

definition finish_builder ::
  "nat \<Rightarrow> ('k \<rightharpoonup> 'v) \<Rightarrow> ('i, 'k, 'v) runner \<Rightarrow> ('i, 'k, 'v) runner" where
  "finish_builder bid d r =
     (let r1 = emit (Connect bid False) r;
          r2 = emit (UpdateTargets bid d) r1
      in if list_all (\<lambda>s. s) (status r2) then emit (Finalize bid) r2 else r2)"

definition run_builder_in_mpi ::
  "('i, 'k, 'v) runner \<Rightarrow> nat \<Rightarrow> (unit, ('i, 'k, 'v) runner) outcome" where
  "run_builder_in_mpi r builder_id =
     (if builder_id < length (builders r) then
        let builder = builders r ! builder_id;
            r1 = emit (Connect builder_id True) r;
            r2 = emit (GetItems builder_id) r1
        in case send_items builder_id (get_items builder) 0 0 r2 of
             Raised e r' \<Rightarrow> Raised e r'
           | Blocked r' \<Rightarrow> Blocked r'
           | Ok (c, n) r3 \<Rightarrow>
               (case recv_results n Map.empty r3 of
                  Raised e r' \<Rightarrow> Raised e r'
                | Blocked r' \<Rightarrow> Blocked r'
                | Ok d r4 \<Rightarrow>
                    (case kill_workers (comm_size r4 - 1) c r4 of
                       Raised e r' \<Rightarrow> Raised e r'
                     | Blocked r' \<Rightarrow> Blocked r'
                     | Ok c' r5 \<Rightarrow> Ok () (finish_builder builder_id d r5)))
      else Raised IndexError r)"

section \<open>The local backend\<close>

text \<open>
  One pass through the body of the local \<^verbatim>\<open>while True\<close> loop of \<^verbatim>\<open>Runner.worker\<close>:
  \<^verbatim>\<open>self._queue.get(timeout=2)\<close> on an empty queue ends in \<^verbatim>\<open>queue.Empty\<close>, which leaves
  the loop; otherwise the packet is taken off the queue and processed, and the result
  is merged with \<^verbatim>\<open>dict.update\<close>. An exception of \<^verbatim>\<open>process_item\<close> is not caught.
\<close>

datatype 'r step = Continue 'r | Stop 'r | Die exn 'r

definition worker_step :: "('i, 'k, 'v) runner \<Rightarrow> ('i, 'k, 'v) runner step" where
  "worker_step r =
     (case queue r of
        [] \<Rightarrow> Stop r
      | (builder_id, item) # rest \<Rightarrow>
          let r1 = r\<lparr>queue := rest\<rparr> in
          if builder_id < length (builders r1) then
            let r2 = emit (ProcessItem builder_id item) r1 in
            (case process_item (builders r2 ! builder_id) item of
               Inl e \<Rightarrow> Die e r2
             | Inr processed_item \<Rightarrow>
                 Continue (r2\<lparr>processed_items := processed_items r2 ++ processed_item\<rparr>))
          else Die IndexError r1)"

function worker :: "('i, 'k, 'v) runner \<Rightarrow> (unit, ('i, 'k, 'v) runner) outcome" where
  "worker r =
     (case worker_step r of
        Stop r' \<Rightarrow> Ok () r'
      | Die e r' \<Rightarrow> Raised e r'
      | Continue r' \<Rightarrow> worker r')"
  by pat_completeness auto
termination
  by (relation "measure (\<lambda>r. length (queue r))")
     (auto simp: worker_step_def emit_def Let_def split: list.splits if_splits sum.splits)

text \<open>
  The pool of \<^verbatim>\<open>num_workers\<close> operating-system processes, each running \<^verbatim>\<open>worker\<close>. Every
  process has an exit code once it has ended: 0 when its loop was left through
  \<^verbatim>\<open>queue.Empty\<close>, 1 when an exception ended it. The processes run concurrently; the
  model interleaves whole passes through the loop body, the next process being the one
  the schedule names (when that one is still running) and else the running process of
  least index.
\<close>

definition first_running :: "int option list \<Rightarrow> nat" where
  "first_running codes = length (takeWhile (\<lambda>c. c \<noteq> None) codes)"

definition pick_worker :: "nat list \<Rightarrow> int option list \<Rightarrow> nat" where
  "pick_worker sched codes =
     (case sched of
        [] \<Rightarrow> first_running codes
      | w # _ \<Rightarrow> if w < length codes \<and> codes ! w = None then w else first_running codes)"

function run_pool ::
  "int option list \<Rightarrow> ('i, 'k, 'v) runner \<Rightarrow> int option list \<times> ('i, 'k, 'v) runner" where
  "run_pool codes r =
     (if list_all (\<lambda>c. c \<noteq> None) codes then (codes, r)
      else
        let w = pick_worker (schedule r) codes;
            r0 = r\<lparr>schedule := tl (schedule r)\<rparr>
        in case worker_step r0 of
             Stop r' \<Rightarrow> run_pool (codes[w := Some 0]) r'
           | Die e r' \<Rightarrow> run_pool (codes[w := Some 1]) r'
           | Continue r' \<Rightarrow> run_pool codes r')"
  by pat_completeness auto
termination
proof -
  have fr: "first_running codes < length codes \<and> codes ! first_running codes = None"
    if "\<not> list_all (\<lambda>c. c \<noteq> None) codes" for codes :: "int option list"
    using that by (induction codes) (auto simp: first_running_def)
  have pw: "pick_worker s codes < length codes \<and> codes ! pick_worker s codes = None"
    if "\<not> list_all (\<lambda>c. c \<noteq> None) codes" for codes :: "int option list" and s
    using fr [OF that] by (auto simp: pick_worker_def split: list.splits)
  have dec: "length (filter (\<lambda>c. c = None) (codes[w := Some v])) < length (filter (\<lambda>c. c = None) codes)"
    if "w < length codes" "codes ! w = None" for codes :: "int option list" and w v
    using that
  proof (induction codes arbitrary: w)
    case Nil
    then show ?case by simp
  next
    case (Cons a codes)
    show ?case
    proof (cases w)
      case 0
      with Cons.prems show ?thesis by simp
    next
      case (Suc n)
      with Cons.IH [of n] Cons.prems show ?thesis by auto
    qed
  qed
  have q_stop: "length (queue r') \<le> length (queue r)"
    if "worker_step r = Stop r' \<or> worker_step r = Die e r'" for r r' :: "('i, 'k, 'v) runner" and e
    using that
    by (auto simp: worker_step_def Let_def emit_def split: list.splits if_splits sum.splits)
  have q_cont: "length (queue r') < length (queue r)"
    if "worker_step r = Continue r'" for r r' :: "('i, 'k, 'v) runner"
    using that
    by (auto simp: worker_step_def Let_def emit_def split: list.splits if_splits sum.splits)
  show ?thesis
  proof (relation "measure (\<lambda>(codes, r). 2 * length (filter (\<lambda>c. c = None) codes) + length (queue r))",
         goal_cases)
    case 1
    show ?case by simp
  next
    case (2 codes r w r0 r')
    from q_cont [of r0 r'] 2 have "length (queue r') < length (queue r)" by auto
    then show ?case by simp
  next
    case (3 codes r w r0 r')
    from q_stop [of r0 r'] 3 have "length (queue r') \<le> length (queue r)" by auto
    with dec [of w codes 0] pw [OF 3(1), of "schedule r"] 3(2) show ?case by simp
  next
    case (4 codes r w r0 e r')
    from q_stop [of r0 r' e] 4 have "length (queue r') \<le> length (queue r)" by auto
    with dec [of w codes 1] pw [OF 4(1), of "schedule r"] 4(2) show ?case by simp
  qed
qed

declare worker.simps [simp del]

declare run_pool.simps [simp del]

text \<open>
  \<^verbatim>\<open>_run_builder_in_multiproc\<close>, in three parts: \<open>feed_queue\<close> connects to the sources and
  puts every item on the queue; \<open>run_workers\<close> is the \<^verbatim>\<open>if self.num_workers > 1\<close> statement,
  which appends one status per worker process (\<^verbatim>\<open>not bool(code)\<close> is true exactly for exit
  code 0) or, for the in-process worker, the status \<^verbatim>\<open>True\<close> when the worker returned;
  \<open>finish_builder\<close> is the tail that both backends share. The queue, the results mapping
  and the status list are attributes of the Runner; the function neither creates nor
  clears them.
\<close>

definition run_workers ::
  "('i, 'k, 'v) runner \<Rightarrow> (unit, ('i, 'k, 'v) runner) outcome" where
  "run_workers r =
     (if num_workers r > 1 then
        (case run_pool (replicate (nat (num_workers r)) None) r of
           (codes, r') \<Rightarrow> Ok () (r'\<lparr>status := status r' @ map (\<lambda>code. code = Some 0) codes\<rparr>))
      else
        (case worker r of
           Ok u r' \<Rightarrow> Ok () (r'\<lparr>status := status r' @ [True]\<rparr>)
         | Raised e r' \<Rightarrow> Raised e r'
         | Blocked r' \<Rightarrow> Blocked r'))"

definition feed_queue :: "('i, 'k, 'v) runner \<Rightarrow> nat \<Rightarrow> ('i, 'k, 'v) runner" where
  "feed_queue r builder_id =
     (let builder = builders r ! builder_id;
          r1 = emit (Connect builder_id True) r;
          r2 = emit (GetItems builder_id) r1
      in r2\<lparr>queue := queue r2 @ map (Pair builder_id) (get_items builder)\<rparr>)"

definition run_builder_in_multiproc ::
  "('i, 'k, 'v) runner \<Rightarrow> nat \<Rightarrow> (unit, ('i, 'k, 'v) runner) outcome" where
  "run_builder_in_multiproc r builder_id =
     (if builder_id < length (builders r) then
        (case run_workers (feed_queue r builder_id) of
           Raised e r' \<Rightarrow> Raised e r'
         | Blocked r' \<Rightarrow> Blocked r'
         | Ok u r' \<Rightarrow> Ok () (finish_builder builder_id (processed_items r') r'))
      else Raised IndexError r)"

definition run_builder ::
  "('i, 'k, 'v) runner \<Rightarrow> nat \<Rightarrow> (unit, ('i, 'k, 'v) runner) outcome" where
  "run_builder r builder_id =
     (if use_mpi r then run_builder_in_mpi r builder_id
      else run_builder_in_multiproc r builder_id)"

section \<open>The traversal\<close>

text \<open>
  \<^verbatim>\<open>_build_dependencies\<close> calls itself for every dependency before it runs the builder;
  nothing in the code bounds the depth. The first argument is the depth of recursion
  still allowed: the value \<open>None\<close> says that the call did not return within it.
  \<^verbatim>\<open>run\<close> and the loop inside \<^verbatim>\<open>_build_dependencies\<close> both call \<^verbatim>\<open>_build_dependencies\<close>
  on every element of a list of indices, in order; an exception ends the loop.
\<close>

fun build_dependencies ::
  "nat \<Rightarrow> ('i, 'k, 'v) runner \<Rightarrow> nat \<Rightarrow> (unit, ('i, 'k, 'v) runner) outcome option"
and build_each ::
  "nat \<Rightarrow> ('i, 'k, 'v) runner \<Rightarrow> nat list \<Rightarrow> (unit, ('i, 'k, 'v) runner) outcome option" where
  "build_dependencies 0 r builder_id = None"
| "build_dependencies (Suc fuel) r builder_id =
     (if builder_id \<in> set (has_run r) then Some (Ok () r)
      else
        (case build_each fuel r (dependency_graph r builder_id) of
           None \<Rightarrow> None
         | Some (Raised e r') \<Rightarrow> Some (Raised e r')
         | Some (Blocked r') \<Rightarrow> Some (Blocked r')
         | Some (Ok u r1) \<Rightarrow>
             (case run_builder r1 builder_id of
                Raised e r' \<Rightarrow> Some (Raised e r')
              | Blocked r' \<Rightarrow> Some (Blocked r')
              | Ok u' r2 \<Rightarrow> Some (Ok () (r2\<lparr>has_run := has_run r2 @ [builder_id]\<rparr>)))))"
| "build_each fuel r [] = Some (Ok () r)"
| "build_each fuel r (j # js) =
     (case build_dependencies fuel r j of
        None \<Rightarrow> None
      | Some (Raised e r') \<Rightarrow> Some (Raised e r')
      | Some (Blocked r') \<Rightarrow> Some (Blocked r')
      | Some (Ok u r') \<Rightarrow> build_each fuel r' js)"

definition run :: "nat \<Rightarrow> ('i, 'k, 'v) runner \<Rightarrow> (unit, ('i, 'k, 'v) runner) outcome option" where
  "run fuel r = build_each fuel r [0..<length (builders r)]"

section \<open>The Delta rule of the differencing engine\<close>

text \<open>
  Modelled from the spec: the class \<^verbatim>\<open>Delta\<close> of \<^verbatim>\<open>maggma/lava/diff.py\<close> is not among the
  source files (only its test \<^verbatim>\<open>maggma/lava/tests/test_diff.py\<close> is). The parsed rule has
  the fields the spec lists: the mode, the two optional thresholds, and the flags for a
  trailing \<^verbatim>\<open>=\<close> and a trailing \<^verbatim>\<open>%\<close>.
\<close>

datatype delta_mode = SignCrossing | ValueMode

record delta =
  mode :: delta_mode
  plus_threshold :: "real option"
  minus_threshold :: "real option"
  inclusive :: bool
  percentage :: bool

text \<open>
  Modelled from the spec: the literal \<open>N\<close> of the grammar, "a non-negative real literal",
  read as decimal digits with an optional fractional part.
\<close>

definition is_digit :: "char \<Rightarrow> bool" where
  "is_digit c = (c \<in> set ''0123456789'')"

definition digits_value :: "string \<Rightarrow> nat" where
  "digits_value ds = foldl (\<lambda>n c. 10 * n + (of_char c - 48)) 0 ds"

definition read_number :: "string \<Rightarrow> (real \<times> string) option" where
  "read_number s =
     (let ip = takeWhile is_digit s; rest = dropWhile is_digit s in
      if ip = [] then None
      else if rest \<noteq> [] \<and> hd rest = CHR ''.'' \<and> takeWhile is_digit (tl rest) \<noteq> [] then
        (let fp = takeWhile is_digit (tl rest) in
         Some (real (digits_value ip) + real (digits_value fp) / 10 ^ length fp,
               dropWhile is_digit (tl rest)))
      else Some (real (digits_value ip), rest))"

text \<open>
  Modelled from the spec: the production \<^verbatim>\<open>sign_spec\<close> of the grammar of section 4.3:
  \<^verbatim>\<open>"+-" N?\<close> (without \<open>N\<close>: sign-crossing mode), \<^verbatim>\<open>"+" N "-" N\<close>, \<^verbatim>\<open>"+" N\<close>, \<^verbatim>\<open>"-" N\<close>.
\<close>

definition read_sign_spec ::
  "string \<Rightarrow> ((delta_mode \<times> real option \<times> real option) \<times> string) option" where
  "read_sign_spec s =
     (if take 2 s = ''+-'' then
        (case read_number (drop 2 s) of
           None \<Rightarrow> Some ((SignCrossing, None, None), drop 2 s)
         | Some (n, rest) \<Rightarrow> Some ((ValueMode, Some n, Some n), rest))
      else if take 1 s = ''+'' then
        (case read_number (drop 1 s) of
           None \<Rightarrow> None
         | Some (p, rest) \<Rightarrow>
             if take 1 rest = ''-'' then
               (case read_number (drop 1 rest) of
                  None \<Rightarrow> None
                | Some (m, rest') \<Rightarrow> Some ((ValueMode, Some p, Some m), rest'))
             else Some ((ValueMode, Some p, None), rest))
      else if take 1 s = ''-'' then
        (case read_number (drop 1 s) of
           None \<Rightarrow> None
         | Some (m, rest) \<Rightarrow> Some ((ValueMode, None, Some m), rest))
      else None)"

text \<open>
  Modelled from the spec: the constructor \<^verbatim>\<open>Delta(spec)\<close>, which parses
  \<^verbatim>\<open>sign_spec ["="] ["%"]\<close> and fails on any other string at construction time
  (the test expects \<^verbatim>\<open>ValueError\<close> for \<^verbatim>\<open>"foo"\<close>).
\<close>

definition Delta :: "string \<Rightarrow> exn + delta" where
  "Delta s =
     (case read_sign_spec s of
        None \<Rightarrow> Inl ValueError
      | Some ((m, p, q), rest) \<Rightarrow>
          let incl = (take 1 rest = ''='');
              rest1 = (if incl then drop 1 rest else rest);
              pct = (take 1 rest1 = ''%'');
              rest2 = (if pct then drop 1 rest1 else rest1)
          in if rest2 = [] then
               Inr \<lparr>mode = m, plus_threshold = p, minus_threshold = q,
                    inclusive = incl, percentage = pct\<rparr>
             else Inl ValueError)"

text \<open>
  Modelled from the spec: "Return \<open>magnitude > threshold\<close>, or \<open>\<ge>\<close> when inclusive"
  (steps 4 and 5 of the evaluation of \<^verbatim>\<open>cmp\<close>).
\<close>

definition exceeds :: "bool \<Rightarrow> real \<Rightarrow> real \<Rightarrow> bool" where
  "exceeds incl magnitude threshold =
     (if incl then magnitude \<ge> threshold else magnitude > threshold)"

text \<open>
  Modelled from the spec: the evaluation \<^verbatim>\<open>cmp(old, new)\<close> of section 4.3, steps 1 to 5, in
  the order the spec gives them.
\<close>

definition Delta_cmp :: "delta \<Rightarrow> real \<Rightarrow> real \<Rightarrow> bool" where
  "Delta_cmp d old new =
     (let diff = new - old in
      if mode d = SignCrossing then (old < 0 \<and> 0 < new) \<or> (new < 0 \<and> 0 < old)
      else if diff = 0 then False
      else if diff > 0 then
        (case plus_threshold d of
           None \<Rightarrow> False
         | Some t \<Rightarrow>
             if percentage d then
               (if old = 0 then False else exceeds (inclusive d) \<bar>100 * diff / old\<bar> t)
             else exceeds (inclusive d) diff t)
      else
        (case minus_threshold d of
           None \<Rightarrow> False
         | Some t \<Rightarrow>
             if percentage d then
               (if old = 0 then False else exceeds (inclusive d) \<bar>100 * diff / old\<bar> t)
             else exceeds (inclusive d) \<bar>diff\<bar> t))"

section \<open>Notions used in the statements\<close>

text \<open>
  The entries that the three loops of \<^verbatim>\<open>_get_builder_dependency_graph\<close> append for builder
  \<open>i\<close>, written as one expression: for every other builder \<open>j\<close>, in order, one copy of
  \<open>j\<close> per source name of \<open>i\<close> that is a target of \<open>j\<close>.
\<close>

definition links_row :: "nat \<Rightarrow> ('i, 'k, 'v) builder \<Rightarrow> (nat \<times> ('i, 'k, 'v) builder) list \<Rightarrow> nat list" where
  "links_row i bi jbs =
     concat (map (\<lambda>(j, bj). if i \<noteq> j
        then replicate (length (filter (\<lambda>s. s \<in> set (targets bj)) (sources bi))) j else []) jbs)"


text \<open>
  The builder whose life-cycle method an event calls (\<^verbatim>\<open>connect\<close>, \<^verbatim>\<open>get_items\<close>,
  \<^verbatim>\<open>update_targets\<close>, \<^verbatim>\<open>finalize\<close>: the calls the coordinating process makes for a run);
  \<open>None\<close> for the traffic of the workers.
\<close>

fun lifecycle_of :: "('i, 'k, 'v) event \<Rightarrow> nat option" where
  "lifecycle_of (Connect i b) = Some i"
| "lifecycle_of (GetItems i) = Some i"
| "lifecycle_of (UpdateTargets i m) = Some i"
| "lifecycle_of (Finalize i) = Some i"
| "lifecycle_of (ProcessItem i x) = None"
| "lifecycle_of (Send p d) = None"
| "lifecycle_of Recv = None"

text \<open>
  \<open>extends r r' es ss\<close>: the state \<open>r'\<close> has the configuration, the graph and the
  bookkeeping of \<open>r\<close>, its trace is that of \<open>r\<close> followed by \<open>es\<close>, and its status list
  is that of \<open>r\<close> followed by \<open>ss\<close>.
\<close>

definition extends ::
  "('i, 'k, 'v) runner \<Rightarrow> ('i, 'k, 'v) runner \<Rightarrow> ('i, 'k, 'v) event list \<Rightarrow> bool list \<Rightarrow> bool" where
  "extends r r' es ss \<longleftrightarrow>
     builders r' = builders r \<and> use_mpi r' = use_mpi r \<and> num_workers r' = num_workers r \<and>
     queue_impl r' = queue_impl r \<and> dict_impl r' = dict_impl r \<and>
     dependency_graph r' = dependency_graph r \<and> has_run r' = has_run r \<and>
     comm_size r' = comm_size r \<and>
     trace r' = trace r @ es \<and> status r' = status r @ ss"

text \<open>
  The events and destinations of the two sending loops of the coordinator, by the number
  \<open>c\<close> of \<^verbatim>\<open>next(worker_id)\<close> calls made before.
\<close>

fun send_events :: "nat \<Rightarrow> nat \<Rightarrow> nat \<Rightarrow> 'i list \<Rightarrow> ('i, 'k, 'v) event list" where
  "send_events bid sz c [] = []"
| "send_events bid sz c (item # items) =
     Send (Some (bid, item)) (1 + c mod (sz - 1)) # send_events bid sz (Suc c) items"

fun kill_dests :: "nat \<Rightarrow> nat \<Rightarrow> nat \<Rightarrow> nat list" where
  "kill_dests sz c 0 = []"
| "kill_dests sz c (Suc m) = (1 + c mod (sz - 1)) # kill_dests sz (Suc c) m"

text \<open>
  The \<^verbatim>\<open>process_item\<close> calls for a list of packets, the mappings they return, and the
  mapping that results from merging a list of mappings in order.
\<close>

definition packet_events :: "(nat \<times> 'i) list \<Rightarrow> ('i, 'k, 'v) event list" where
  "packet_events ps = map (\<lambda>(b, x). ProcessItem b x) ps"

definition packet_results ::
  "('i, 'k, 'v) builder list \<Rightarrow> (nat \<times> 'i) list \<Rightarrow> ('k \<rightharpoonup> 'v) list" where
  "packet_results bs ps =
     map (\<lambda>(b, x). case process_item (bs ! b) x of Inr m \<Rightarrow> m | Inl e \<Rightarrow> Map.empty) ps"

definition merge_all :: "('k \<rightharpoonup> 'v) \<Rightarrow> ('k \<rightharpoonup> 'v) list \<Rightarrow> ('k \<rightharpoonup> 'v)" where
  "merge_all d ms = foldl (++) d ms"

fun is_connect :: "('i, 'k, 'v) event \<Rightarrow> bool" where
  "is_connect (Connect i b) = True"
| "is_connect e = False"

fun is_update_targets :: "('i, 'k, 'v) event \<Rightarrow> bool" where
  "is_update_targets (UpdateTargets i m) = True"
| "is_update_targets e = False"

text \<open>
  The events of one complete builder run: the connection to the sources and the call of
  \<^verbatim>\<open>get_items\<close>, the traffic of the workers, the connection to the targets and the call
  of \<^verbatim>\<open>update_targets\<close> with the mapping \<open>d\<close>, and the call of \<^verbatim>\<open>finalize\<close> when \<open>fin\<close>
  holds. \<open>mpi_work\<close> is the traffic of the coordinator of the distributed backend, and
  \<open>mpi_block\<close> its complete run when the mappings \<open>ps\<close> are received.
\<close>

definition run_block ::
  "nat \<Rightarrow> ('i, 'k, 'v) event list \<Rightarrow> ('k \<rightharpoonup> 'v) \<Rightarrow> bool \<Rightarrow> ('i, 'k, 'v) event list" where
  "run_block i work d fin =
     [Connect i True, GetItems i] @ work @ [Connect i False, UpdateTargets i d]
     @ (if fin then [Finalize i] else [])"

definition mpi_work :: "('i, 'k, 'v) runner \<Rightarrow> nat \<Rightarrow> ('i, 'k, 'v) event list" where
  "mpi_work r i =
     (let items = get_items (builders r ! i); n = length items in
      send_events i (comm_size r) 0 items @ replicate n Recv
      @ map (Send None) (kill_dests (comm_size r) n (comm_size r - 1)))"

definition mpi_block ::
  "('i, 'k, 'v) runner \<Rightarrow> nat \<Rightarrow> ('k \<rightharpoonup> 'v) list \<Rightarrow> ('i, 'k, 'v) event list" where
  "mpi_block r i ps =
     (let items = get_items (builders r ! i); n = length items in
      [Connect i True, GetItems i] @ send_events i (comm_size r) 0 items @ replicate n Recv
      @ map (Send None) (kill_dests (comm_size r) n (comm_size r - 1))
      @ [Connect i False, UpdateTargets i (merge_all Map.empty ps)]
      @ (if list_all (\<lambda>s. s) (status r) then [Finalize i] else []))"

text \<open>
  The statuses that the local backend appends for one run that starts the workers in
  state \<open>r\<close>: one per worker process, true for exit code 0, or the single status of the
  in-process worker.
\<close>

definition worker_statuses :: "('i, 'k, 'v) runner \<Rightarrow> bool list" where
  "worker_statuses r =
     (if num_workers r > 1
      then map (\<lambda>code. code = Some 0) (fst (run_pool (replicate (nat (num_workers r)) None) r))
      else [True])"

section \<open>Example configurations\<close>

text \<open>
  Three builders in the order X, Y, Z: X reads what Y writes, and Y reads what Z writes.
  Items, keys and values are natural numbers; \<^verbatim>\<open>process_item\<close> maps an item to a
  one-entry mapping.
\<close>

definition example_builders :: "(nat, nat, nat) builder list" where
  "example_builders =
     [\<lparr>sources = [''y_store''], targets = [''x_store''], get_items = [20, 21],
        process_item = (\<lambda>i. Inr [i \<mapsto> 2])\<rparr>,
      \<lparr>sources = [''z_store''], targets = [''y_store''], get_items = [10],
        process_item = (\<lambda>i. Inr [i \<mapsto> 1])\<rparr>,
      \<lparr>sources = [''raw''], targets = [''z_store'', ''log''], get_items = [0, 1],
        process_item = (\<lambda>i. Inr [i \<mapsto> 0])\<rparr>]"

definition example_world :: "(nat, nat) world" where
  "example_world =
     \<lparr>mpi4py_importable = True, world_size = 3,
      world_inbox = [Inr [0 \<mapsto> 0], Inr [1 \<mapsto> 0], Inr [10 \<mapsto> 1], Inr [20 \<mapsto> 2], Inr [21 \<mapsto> 2]],
      world_schedule = [1, 0, 1]\<rparr>"

section \<open>The dependency graph: what the loops compute\<close>

lemma link_sources_eq:
  "link_sources i j ss tj links = links(i := links i @ replicate (length (filter (\<lambda>s. s \<in> set tj) ss)) j)"
  by (induction ss arbitrary: links) (auto simp: dd_append_def replicate_app_Cons_same)

lemma link_targets_eq:
  "link_targets i bi jbs links = links(i := links i @ links_row i bi jbs)"
  by (induction jbs arbitrary: links) (auto simp: links_row_def link_sources_eq)

lemma link_builders_eq:
  "link_builders (enumerate n xs) bs links k =
     (if n \<le> k \<and> k < n + length xs then links k @ links_row k (xs ! (k - n)) (enumerate 0 bs)
      else links k)"
proof (induction xs arbitrary: n links)
  case Nil
  then show ?case by auto
next
  case (Cons x xs)
  show ?case
    by (simp add: enumerate_simps Cons.IH link_targets_eq)
qed

lemma set_links_row_gen:
  "set (links_row i bi jbs) =
     {j. \<exists>bj. (j, bj) \<in> set jbs \<and> i \<noteq> j \<and> (\<exists>s \<in> set (sources bi). s \<in> set (targets bj))}"
proof (induction jbs)
  case Nil
  then show ?case by (simp add: links_row_def)
next
  case (Cons jb jbs)
  obtain j bj where jb: "jb = (j, bj)" by (cases jb)
  have "links_row i bi (jb # jbs) =
          (if i \<noteq> j then replicate (length (filter (\<lambda>s. s \<in> set (targets bj)) (sources bi))) j else [])
          @ links_row i bi jbs"
    by (simp add: links_row_def jb)
  then show ?case
    using Cons.IH by (auto simp: jb filter_empty_conv)
qed

lemma set_links_row:
  "set (links_row i bi (enumerate 0 bs)) =
     {j. j < length bs \<and> i \<noteq> j \<and> (\<exists>s \<in> set (sources bi). s \<in> set (targets (bs ! j)))}"
  by (auto simp: set_links_row_gen in_set_enumerate_eq)

lemma dependency_graph_members:
  "set (get_builder_dependency_graph bs i) =
     (if i < length bs
      then {j. j < length bs \<and> i \<noteq> j \<and> (\<exists>s \<in> set (sources (bs ! i)). s \<in> set (targets (bs ! j)))}
      else {})"
  by (simp add: get_builder_dependency_graph_def link_builders_eq set_links_row)


text \<open>
  C5. The graph that the constructor stores has the edge "\<open>i\<close> depends on \<open>j\<close>" exactly
  when \<open>i\<close> and \<open>j\<close> are two different indices of the builder list and some name in the
  sources of builder \<open>i\<close> is, as a string, equal to a name in the targets of builder
  \<open>j\<close>; no builder depends on itself; and every construction computes the graph anew
  from the builders it is given.
\<close>

theorem dependency_graph_edges:
  "(j \<in> set (get_builder_dependency_graph bs i) \<longleftrightarrow>
      i < length bs \<and> j < length bs \<and> i \<noteq> j \<and>
      (\<exists>s \<in> set (sources (bs ! i)). s \<in> set (targets (bs ! j))))
   \<and> i \<notin> set (get_builder_dependency_graph bs i)
   \<and> (\<forall>mpi nw w r. Runner_init bs mpi nw w = Inr r \<longrightarrow>
         dependency_graph r = get_builder_dependency_graph bs)"
  by (auto simp: dependency_graph_members Runner_init_def Let_def split: if_splits)


theorem dependency_graph_edges_witness:
  "1 \<in> set (get_builder_dependency_graph example_builders 0)
   \<and> 0 \<notin> set (get_builder_dependency_graph example_builders 0)
   \<and> 2 \<notin> set (get_builder_dependency_graph example_builders 0)
   \<and> dependency_graph (projr (Runner_init example_builders False 1 example_world)) =
       get_builder_dependency_graph example_builders"
  using dependency_graph_edges [where i = 0 and j = 1 and bs = example_builders]
        dependency_graph_edges [where i = 0 and j = 2 and bs = example_builders]
  by (simp add: example_builders_def Runner_init_def)

section \<open>Construction\<close>

text \<open>
  C4. With \<^verbatim>\<open>use_mpi\<close> the constructor fails when \<^verbatim>\<open>mpi4py\<close> cannot be imported (the code
  raises \<^verbatim>\<open>ImportError\<close>) and otherwise stores \<^verbatim>\<open>num_workers = 1\<close> whatever the argument
  was. Without \<^verbatim>\<open>use_mpi\<close>, more than one worker gives a \<^verbatim>\<open>multiprocessing.Queue\<close> and a
  manager dictionary, and one worker gives a plain \<^verbatim>\<open>queue.Queue\<close> and a plain \<^verbatim>\<open>dict\<close>.
\<close>

theorem Runner_init_backends:
  "(mpi \<and> \<not> mpi4py_importable w \<longrightarrow> Runner_init bs mpi nw w = Inl ImportError)
   \<and> (mpi \<and> mpi4py_importable w \<longrightarrow>
        (\<exists>r. Runner_init bs mpi nw w = Inr r \<and> use_mpi r \<and> num_workers r = 1))
   \<and> (\<not> mpi \<and> nw > 1 \<longrightarrow>
        (\<exists>r. Runner_init bs mpi nw w = Inr r \<and> \<not> use_mpi r \<and> num_workers r = nw \<and>
             queue_impl r = Some MultiprocessingQueue \<and> dict_impl r = Some ManagerDict \<and>
             queue r = [] \<and> processed_items r = Map.empty))
   \<and> (\<not> mpi \<and> nw = 1 \<longrightarrow>
        (\<exists>r. Runner_init bs mpi nw w = Inr r \<and> \<not> use_mpi r \<and> num_workers r = 1 \<and>
             queue_impl r = Some PlainQueue \<and> dict_impl r = Some PlainDict \<and>
             queue r = [] \<and> processed_items r = Map.empty))"
  by (simp add: Runner_init_def Let_def)


theorem Runner_init_backends_witness:
  "Runner_init example_builders True 4 (example_world\<lparr>mpi4py_importable := False\<rparr>) = Inl ImportError
   \<and> (\<exists>r. Runner_init example_builders True 4 example_world = Inr r \<and> use_mpi r \<and> num_workers r = 1)
   \<and> (\<exists>r. Runner_init example_builders False 4 example_world = Inr r \<and> \<not> use_mpi r \<and>
          num_workers r = 4 \<and> queue_impl r = Some MultiprocessingQueue \<and>
          dict_impl r = Some ManagerDict \<and> queue r = [] \<and> processed_items r = Map.empty)
   \<and> (\<exists>r. Runner_init example_builders False 1 example_world = Inr r \<and> \<not> use_mpi r \<and>
          num_workers r = 1 \<and> queue_impl r = Some PlainQueue \<and>
          dict_impl r = Some PlainDict \<and> queue r = [] \<and> processed_items r = Map.empty)"
  using Runner_init_backends [where mpi = True and nw = 4 and bs = example_builders
          and w = "example_world\<lparr>mpi4py_importable := False\<rparr>"]
        Runner_init_backends [where mpi = True and nw = 4 and bs = example_builders and w = example_world]
        Runner_init_backends [where mpi = False and nw = 4 and bs = example_builders and w = example_world]
        Runner_init_backends [where mpi = False and nw = 1 and bs = example_builders and w = example_world]
  by (simp add: example_world_def)

section \<open>What one builder run does\<close>

subsection \<open>The coordinator of the distributed backend\<close>

lemma extends_refl: "extends r r [] []"
  by (simp add: extends_def)

lemma extends_trans:
  "extends r r1 es1 ss1 \<Longrightarrow> extends r1 r2 es2 ss2 \<Longrightarrow> extends r r2 (es1 @ es2) (ss1 @ ss2)"
  by (simp add: extends_def)

lemma extends_emit: "extends r (emit e r) [e] []"
  by (simp add: extends_def emit_def)

lemma send_items_Ok:
  "send_items bid items c n r = Ok (c', n') r' \<Longrightarrow>
     c' = c + length items \<and> n' = n + length items \<and> comm_inbox r' = comm_inbox r \<and>
     queue r' = queue r \<and> processed_items r' = processed_items r \<and> schedule r' = schedule r \<and>
     extends r r' (send_events bid (comm_size r) c items) []"
proof (induction items arbitrary: c n r)
  case Nil
  then show ?case by (simp add: extends_refl)
next
  case (Cons item items)
  from Cons.prems obtain dest where d: "next_worker (comm_size r) c = Inr dest"
    by (auto split: sum.splits)
  then have dest: "dest = 1 + c mod (comm_size r - 1)"
    by (auto simp: next_worker_def split: if_splits)
  let ?r1 = "emit (Send (Some (bid, item)) dest) r"
  from Cons.prems d have "send_items bid items (Suc c) (Suc n) ?r1 = Ok (c', n') r'" by simp
  from Cons.IH [OF this] extends_emit [of r "Send (Some (bid, item)) dest"]
  show ?case
    by (auto simp: dest extends_def emit_def)
qed

lemma send_items_total:
  "2 \<le> comm_size r \<Longrightarrow> \<exists>r'. send_items bid items c n r = Ok (c + length items, n + length items) r'"
proof (induction items arbitrary: c n r)
  case Nil
  then show ?case by simp
next
  case (Cons item items)
  let ?r1 = "emit (Send (Some (bid, item)) (1 + c mod (comm_size r - 1))) r"
  have "2 \<le> comm_size ?r1" using Cons.prems by (simp add: emit_def)
  from Cons.IH [OF this, of "Suc c" "Suc n"] Cons.prems
  show ?case by (simp add: next_worker_def)
qed

lemma recv_results_Ok:
  "recv_results m d r = Ok d' r' \<Longrightarrow>
     \<exists>ps. length ps = m \<and> comm_inbox r = map Inr ps @ comm_inbox r' \<and> d' = merge_all d ps \<and>
          queue r' = queue r \<and> processed_items r' = processed_items r \<and> schedule r' = schedule r \<and>
          extends r r' (replicate m Recv) (replicate m True)"
proof (induction m arbitrary: d r)
  case 0
  then show ?case by (simp add: extends_refl merge_all_def)
next
  case (Suc m)
  from Suc.prems obtain p rest where inbox: "comm_inbox r = Inr p # rest"
    by (auto split: list.splits sum.splits)
  let ?r1 = "emit Recv (r\<lparr>comm_inbox := rest\<rparr>)\<lparr>status := status r @ [True]\<rparr>"
  from Suc.prems inbox have "recv_results m (d ++ p) ?r1 = Ok d' r'" by simp
  from Suc.IH [OF this] obtain ps where ps:
    "length ps = m" "comm_inbox ?r1 = map Inr ps @ comm_inbox r'" "d' = merge_all (d ++ p) ps"
    "queue r' = queue ?r1" "processed_items r' = processed_items ?r1" "schedule r' = schedule ?r1"
    "extends ?r1 r' (replicate m Recv) (replicate m True)"
    by blast
  have "extends r ?r1 [Recv] [True]" by (simp add: extends_def emit_def)
  from extends_trans [OF this ps(7)]
  have "extends r r' (replicate (Suc m) Recv) (replicate (Suc m) True)" by simp
  with ps inbox show ?case
    by (intro exI [of _ "p # ps"]) (simp add: emit_def merge_all_def)
qed

lemma recv_results_total:
  "comm_inbox r = map Inr ps @ rest \<Longrightarrow> \<exists>r'. recv_results (length ps) d r = Ok (merge_all d ps) r'"
proof (induction ps arbitrary: d r)
  case Nil
  then show ?case by (simp add: merge_all_def)
next
  case (Cons p ps)
  let ?r1 = "emit Recv (r\<lparr>comm_inbox := map Inr ps @ rest\<rparr>)\<lparr>status := status r @ [True]\<rparr>"
  have "comm_inbox ?r1 = map Inr ps @ rest" by (simp add: emit_def)
  from Cons.IH [OF this, of "d ++ p"] Cons.prems show ?case by (simp add: merge_all_def)
qed

lemma kill_workers_Ok:
  "kill_workers m c r = Ok c' r' \<Longrightarrow>
     c' = c + m \<and> comm_inbox r' = comm_inbox r \<and>
     queue r' = queue r \<and> processed_items r' = processed_items r \<and> schedule r' = schedule r \<and>
     extends r r' (map (Send None) (kill_dests (comm_size r) c m)) []"
proof (induction m arbitrary: c r)
  case 0
  then show ?case by (simp add: extends_refl)
next
  case (Suc m)
  from Suc.prems obtain dest where d: "next_worker (comm_size r) c = Inr dest"
    by (auto split: sum.splits)
  then have dest: "dest = 1 + c mod (comm_size r - 1)"
    by (auto simp: next_worker_def split: if_splits)
  let ?r1 = "emit (Send None dest) r"
  from Suc.prems d have "kill_workers m (Suc c) ?r1 = Ok c' r'" by simp
  from Suc.IH [OF this] show ?case
    by (auto simp: dest extends_def emit_def)
qed

lemma kill_workers_total:
  "2 \<le> comm_size r \<Longrightarrow> \<exists>r'. kill_workers m c r = Ok (c + m) r'"
proof (induction m arbitrary: c r)
  case 0
  then show ?case by simp
next
  case (Suc m)
  let ?r1 = "emit (Send None (1 + c mod (comm_size r - 1))) r"
  have "2 \<le> comm_size ?r1" using Suc.prems by (simp add: emit_def)
  from Suc.IH [OF this, of "Suc c"] Suc.prems
  show ?case by (simp add: next_worker_def)
qed

lemma kill_dests_eq: "kill_dests sz c m = map (\<lambda>k. 1 + (c + k) mod (sz - 1)) [0..<m]"
proof (induction m arbitrary: c)
  case 0
  then show ?case by simp
next
  case (Suc m)
  have "[0..<Suc m] = 0 # map Suc [0..<m]"
    by (simp add: upt_conv_Cons map_Suc_upt del: upt_Suc)
  then show ?case by (simp add: Suc.IH comp_def del: upt_Suc)
qed

lemma shift_mod_inj:
  fixes c m :: nat
  shows "inj_on (\<lambda>k. (c + k) mod m) {0..<m}"
proof (rule inj_onI)
  fix x y
  assume x: "x \<in> {0..<m}" and y: "y \<in> {0..<m}" and eq: "(c + x) mod m = (c + y) mod m"
  have aux: "a = b" if "a \<le> b" "b < m" "(c + a) mod m = (c + b) mod m" for a b
  proof -
    from that(1,3) have "m dvd (c + b) - (c + a)"
      by (metis add_le_cancel_left mod_eq_dvd_iff_nat)
    then have "m dvd b - a" by simp
    moreover have "b - a < m" using that by simp
    ultimately have "b - a = 0" by (meson dvd_imp_le not_less zero_less_iff_neq_zero)
    with that(1) show ?thesis by simp
  qed
  show "x = y"
  proof (cases "x \<le> y")
    case True
    with aux [of x y] y eq show ?thesis by simp
  next
    case False
    with aux [of y x] x eq show ?thesis by simp
  qed
qed

lemma kill_dests_once:
  assumes "2 \<le> sz"
  shows "distinct (kill_dests sz c (sz - 1)) \<and> set (kill_dests sz c (sz - 1)) = {1..<sz}
         \<and> length (kill_dests sz c (sz - 1)) = sz - 1"
proof -
  let ?m = "sz - 1"
  let ?f = "\<lambda>k. (c + k) mod ?m"
  have m: "0 < ?m" using assms by simp
  have inj: "inj_on ?f {0..<?m}" by (rule shift_mod_inj)
  have "?f ` {0..<?m} \<subseteq> {0..<?m}" using m by auto
  moreover have "card (?f ` {0..<?m}) = card {0..<?m}" using inj by (rule card_image)
  ultimately have img: "?f ` {0..<?m} = {0..<?m}"
    by (intro card_subset_eq) auto
  have eq: "kill_dests sz c ?m = map Suc (map ?f [0..<?m])"
    by (simp add: kill_dests_eq)
  have d: "distinct (map ?f [0..<?m])"
    using inj by (simp add: distinct_map)
  have s: "set (map ?f [0..<?m]) = {0..<?m}" using img by simp
  have "Suc ` {0..<?m} = {1..<sz}"
    using assms by (auto simp: image_iff)
  moreover have "distinct (map Suc ys)" if "distinct ys" for ys :: "nat list"
    using that by (simp add: distinct_map)
  from this [OF d] have "distinct (kill_dests sz c ?m)" unfolding eq .
  moreover have "set (kill_dests sz c ?m) = Suc ` {0..<?m}"
    unfolding eq using s by (metis list.set_map)
  moreover have "length (kill_dests sz c ?m) = ?m" unfolding eq by simp
  ultimately show ?thesis by simp
qed

lemma merge_all_Nil [simp]: "merge_all d [] = d"
  by (simp add: merge_all_def)

lemma merge_all_Cons [simp]: "merge_all d (m # ms) = merge_all (d ++ m) ms"
  by (simp add: merge_all_def)

lemma merge_all_append: "merge_all d (ms @ ns) = merge_all (merge_all d ms) ns"
  by (simp add: merge_all_def)

lemma merge_all_snoc: "merge_all d (ms @ [m]) = merge_all d ms ++ m"
  by (simp add: merge_all_def)

lemma dom_merge_all: "dom (merge_all d ms) = dom d \<union> (\<Union>m \<in> set ms. dom m)"
  by (induction ms arbitrary: d) auto

lemma merge_all_lookup:
  "merge_all d ms k =
     (case filter (\<lambda>m. m k \<noteq> None) (rev ms) of [] \<Rightarrow> d k | m # _ \<Rightarrow> m k)"
proof (induction ms rule: rev_induct)
  case Nil
  then show ?case by simp
next
  case (snoc m ms)
  then show ?case
    by (cases "m k") (simp_all add: merge_all_snoc map_add_def)
qed

lemma send_events_eq:
  "send_events bid sz c items =
     map (\<lambda>k. Send (Some (bid, items ! k)) (1 + (c + k) mod (sz - 1))) [0..<length items]"
proof (induction items arbitrary: c)
  case Nil
  then show ?case by simp
next
  case (Cons item items)
  have "[0..<length (item # items)] = 0 # map Suc [0..<length items]"
    by (simp add: upt_conv_Cons map_Suc_upt del: upt_Suc)
  then show ?case by (simp add: Cons.IH comp_def del: upt_Suc)
qed

lemma lifecycle_send_events: "e \<in> set (send_events bid sz c items) \<Longrightarrow> lifecycle_of e = None"
  by (induction items arbitrary: c) auto

lemma finish_builder_extends:
  "extends r (finish_builder i d r)
     ([Connect i False, UpdateTargets i d] @ (if list_all (\<lambda>s. s) (status r) then [Finalize i] else [])) []
   \<and> queue (finish_builder i d r) = queue r
   \<and> processed_items (finish_builder i d r) = processed_items r
   \<and> comm_inbox (finish_builder i d r) = comm_inbox r
   \<and> schedule (finish_builder i d r) = schedule r"
  by (simp add: finish_builder_def Let_def extends_def emit_def)

lemma run_builder_in_mpi_Ok:
  assumes "run_builder_in_mpi r i = Ok u r'"
  shows "i < length (builders r) \<and>
         (\<exists>ps. length ps = length (get_items (builders r ! i)) \<and>
               comm_inbox r = map Inr ps @ comm_inbox r' \<and>
               extends r r' (mpi_block r i ps) (replicate (length ps) True)) \<and>
         queue r' = queue r \<and> processed_items r' = processed_items r \<and> schedule r' = schedule r"
proof -
  let ?items = "get_items (builders r ! i)"
  let ?r2 = "emit (GetItems i) (emit (Connect i True) r)"
  from assms have i: "i < length (builders r)"
    by (auto simp: run_builder_in_mpi_def split: if_splits)
  from assms i obtain c n r3 where s: "send_items i ?items 0 0 ?r2 = Ok (c, n) r3"
    by (auto simp: run_builder_in_mpi_def Let_def split: outcome.splits)
  from assms i s obtain d r4 where rv: "recv_results n Map.empty r3 = Ok d r4"
    by (auto simp: run_builder_in_mpi_def Let_def split: outcome.splits)
  from assms i s rv obtain c' r5 where k: "kill_workers (comm_size r4 - 1) c r4 = Ok c' r5"
    by (auto simp: run_builder_in_mpi_def Let_def split: outcome.splits)
  from assms i s rv k have r': "r' = finish_builder i d r5"
    by (auto simp: run_builder_in_mpi_def Let_def split: outcome.splits)
  have e2: "extends r ?r2 [Connect i True, GetItems i] []"
    by (simp add: extends_def emit_def)
  have f2: "comm_inbox ?r2 = comm_inbox r" "queue ?r2 = queue r"
    "processed_items ?r2 = processed_items r" "schedule ?r2 = schedule r" "comm_size ?r2 = comm_size r"
    by (simp_all add: emit_def)
  from send_items_Ok [OF s] have s3:
    "c = length ?items" "n = length ?items" "comm_inbox r3 = comm_inbox ?r2" "queue r3 = queue ?r2"
    "processed_items r3 = processed_items ?r2" "schedule r3 = schedule ?r2"
    "extends ?r2 r3 (send_events i (comm_size r) 0 ?items) []"
    by (simp_all add: f2)
  from recv_results_Ok [OF rv] obtain ps where s4:
    "length ps = n" "comm_inbox r3 = map Inr ps @ comm_inbox r4" "d = merge_all Map.empty ps"
    "queue r4 = queue r3" "processed_items r4 = processed_items r3" "schedule r4 = schedule r3"
    "extends r3 r4 (replicate n Recv) (replicate n True)"
    by blast
  have cs4: "comm_size r4 = comm_size r"
    using e2 s3(7) s4(7) by (simp add: extends_def)
  from kill_workers_Ok [OF k] have s5:
    "comm_inbox r5 = comm_inbox r4" "queue r5 = queue r4" "processed_items r5 = processed_items r4"
    "schedule r5 = schedule r4"
    "extends r4 r5 (map (Send None) (kill_dests (comm_size r) c (comm_size r - 1))) []"
    by (simp_all add: cs4)
  have st5: "status r5 = status r @ replicate n True"
    using e2 s3(7) s4(7) s5(5) by (simp add: extends_def)
  note fb = finish_builder_extends [of r5 i d]
  have blk: "extends r r'
      ([Connect i True, GetItems i] @ send_events i (comm_size r) 0 ?items @ replicate n Recv
       @ map (Send None) (kill_dests (comm_size r) n (comm_size r - 1))
       @ [Connect i False, UpdateTargets i (merge_all Map.empty ps)]
       @ (if list_all (\<lambda>s. s) (status r') then [Finalize i] else [])) (replicate n True)"
    using e2 s3(7) s4(7) s5(5) fb s3(1,2) s4(3) unfolding r' extends_def by simp
  have "status r' = status r @ replicate n True"
    using blk by (simp add: extends_def)
  then have "list_all (\<lambda>s. s) (status r') = list_all (\<lambda>s. s) (status r)"
    by (auto simp: list_all_iff)
  with blk have "extends r r' (mpi_block r i ps) (replicate (length ps) True)"
    by (simp add: mpi_block_def Let_def s4(1) s3(2))
  moreover have "comm_inbox r = map Inr ps @ comm_inbox r'"
    using s4(2) s3(3) f2(1) s5(1) fb by (simp add: r')
  moreover have "queue r' = queue r" "processed_items r' = processed_items r" "schedule r' = schedule r"
    using fb s5 s4 s3 f2 by (simp_all add: r')
  ultimately show ?thesis
    using i s4(1) s3(2) by blast
qed

lemma run_builder_in_mpi_total:
  assumes "2 \<le> comm_size r" "i < length (builders r)"
    and "comm_inbox r = map Inr ps @ rest" "length ps = length (get_items (builders r ! i))"
  shows "\<exists>r'. run_builder_in_mpi r i = Ok () r'"
proof -
  let ?items = "get_items (builders r ! i)"
  let ?r2 = "emit (GetItems i) (emit (Connect i True) r)"
  have "2 \<le> comm_size ?r2" using assms(1) by (simp add: emit_def)
  from send_items_total [OF this, of i ?items 0 0]
  obtain r3 where s: "send_items i ?items 0 0 ?r2 = Ok (length ?items, length ?items) r3"
    by auto
  from send_items_Ok [OF s] have r3: "comm_inbox r3 = map Inr ps @ rest" "comm_size r3 = comm_size r"
    using assms(3) by (simp_all add: emit_def extends_def)
  from recv_results_total [OF r3(1), of Map.empty]
  obtain r4 where rv: "recv_results (length ps) Map.empty r3 = Ok (merge_all Map.empty ps) r4"
    by auto
  from recv_results_Ok [OF rv] r3(2) have "2 \<le> comm_size r4"
    using assms(1) by (auto simp: extends_def)
  from kill_workers_total [OF this, of "comm_size r4 - 1" "length ?items"]
  obtain r5 where k: "kill_workers (comm_size r4 - 1) (length ?items) r4 = Ok (length ?items + (comm_size r4 - 1)) r5"
    by auto
  show ?thesis
    using assms(2,4) s rv k by (simp add: run_builder_in_mpi_def Let_def)
qed

subsection \<open>The workers of the local backend\<close>

lemma worker_step_Stop: "worker_step r = Stop r' \<longleftrightarrow> queue r = [] \<and> r' = r"
  by (auto simp: worker_step_def Let_def split: list.splits sum.splits)

lemma worker_step_Continue:
  "worker_step r = Continue r' \<longleftrightarrow>
     (\<exists>b x rest p. queue r = (b, x) # rest \<and> b < length (builders r) \<and>
        process_item (builders r ! b) x = Inr p \<and>
        r' = r\<lparr>queue := rest, processed_items := processed_items r ++ p,
               trace := trace r @ [ProcessItem b x]\<rparr>)"
  by (auto simp: worker_step_def Let_def emit_def split: list.splits sum.splits)

lemma worker_step_Die:
  "worker_step r = Die e r' \<longleftrightarrow>
     (\<exists>b x rest. queue r = (b, x) # rest \<and>
        (if b < length (builders r)
         then process_item (builders r ! b) x = Inl e \<and>
              r' = r\<lparr>queue := rest, trace := trace r @ [ProcessItem b x]\<rparr>
         else e = IndexError \<and> r' = r\<lparr>queue := rest\<rparr>))"
  by (auto simp: worker_step_def Let_def emit_def split: list.splits sum.splits)

lemma worker_step_effect:
  assumes "worker_step r = Continue r' \<or> worker_step r = Stop r' \<or> worker_step r = Die e r'"
  shows "\<exists>es ms. extends r r' es [] \<and> (\<forall>e \<in> set es. lifecycle_of e = None) \<and>
           processed_items r' = merge_all (processed_items r) ms \<and>
           comm_inbox r' = comm_inbox r \<and> schedule r' = schedule r"
proof -
  from assms consider
      (c) b x rest p where "r' = r\<lparr>queue := rest, processed_items := processed_items r ++ p,
                                 trace := trace r @ [ProcessItem b x]\<rparr>"
    | (s) "r' = r"
    | (d1) b x rest where "r' = r\<lparr>queue := rest, trace := trace r @ [ProcessItem b x]\<rparr>"
    | (d2) rest where "r' = r\<lparr>queue := rest\<rparr>"
    unfolding worker_step_Continue worker_step_Stop worker_step_Die
    by (auto split: if_splits)
  then show ?thesis
  proof cases
    case c
    then show ?thesis
      by (intro exI [of _ "[ProcessItem b x]"] exI [of _ "[p]"]) (simp add: extends_def)
  next
    case s
    then show ?thesis
      by (intro exI [of _ "[]"] exI [of _ "[]"]) (simp add: extends_def)
  next
    case d1
    then show ?thesis
      by (intro exI [of _ "[ProcessItem b x]"] exI [of _ "[]"]) (simp add: extends_def)
  next
    case d2
    then show ?thesis
      by (intro exI [of _ "[]"] exI [of _ "[]"]) (simp add: extends_def)
  qed
qed

lemma worker_Ok:
  "worker r = Ok u r' \<Longrightarrow>
     extends r r' (packet_events (queue r)) [] \<and> queue r' = [] \<and>
     processed_items r' = merge_all (processed_items r) (packet_results (builders r) (queue r)) \<and>
     comm_inbox r' = comm_inbox r \<and> schedule r' = schedule r"
proof (induction r rule: worker.induct)
  case (1 r)
  show ?case
  proof (cases "worker_step r")
    case (Stop r1)
    with "1.prems" have "r' = r1" by (simp add: worker.simps [of r])
    with Stop show ?thesis
      by (simp add: worker_step_Stop extends_def packet_events_def packet_results_def)
  next
    case (Die e r1)
    with "1.prems" show ?thesis by (simp add: worker.simps [of r])
  next
    case (Continue r1)
    with "1.prems" have w: "worker r1 = Ok u r'" by (simp add: worker.simps [of r])
    from Continue obtain b x rest p where q: "queue r = (b, x) # rest" "b < length (builders r)"
      "process_item (builders r ! b) x = Inr p"
      "r1 = r\<lparr>queue := rest, processed_items := processed_items r ++ p,
              trace := trace r @ [ProcessItem b x]\<rparr>"
      unfolding worker_step_Continue by blast
    from "1.IH" [OF Continue w] q show ?thesis
      by (simp add: extends_def packet_events_def packet_results_def)
  qed
qed

lemma run_pool_effect:
  "run_pool codes r = (codes', r') \<Longrightarrow>
     (\<exists>es ms. extends r r' es [] \<and> (\<forall>e \<in> set es. lifecycle_of e = None) \<and>
        processed_items r' = merge_all (processed_items r) ms) \<and>
     length codes' = length codes \<and> list_all (\<lambda>c. c \<noteq> None) codes' \<and>
     comm_inbox r' = comm_inbox r"
proof (induction codes r rule: run_pool.induct)
  case (1 codes r)
  show ?case
  proof (cases "list_all (\<lambda>c. c \<noteq> None) codes")
    case True
    with "1.prems" have "codes' = codes" "r' = r" by (simp_all add: run_pool.simps [of codes r])
    with True show ?thesis
      by (auto intro!: exI [of _ "[]"] simp: extends_def)
  next
    case False
    define w where "w = pick_worker (schedule r) codes"
    define r0 where "r0 = r\<lparr>schedule := tl (schedule r)\<rparr>"
    have e0: "extends r r0 [] []" "processed_items r0 = processed_items r" "comm_inbox r0 = comm_inbox r"
      by (simp_all add: r0_def extends_def)
    have step: "\<exists>es ms. extends r r1 es [] \<and> (\<forall>e \<in> set es. lifecycle_of e = None) \<and>
                  processed_items r1 = merge_all (processed_items r) ms \<and> comm_inbox r1 = comm_inbox r"
      if "worker_step r0 = Continue r1 \<or> worker_step r0 = Stop r1 \<or> worker_step r0 = Die e r1" for r1 e
      using worker_step_effect [OF that] e0 by (auto simp: extends_def)
    have rest: ?thesis
      if st: "worker_step r0 = Continue r1 \<or> worker_step r0 = Stop r1 \<or> worker_step r0 = Die e r1"
        and ih: "(\<exists>es ms. extends r1 r' es [] \<and> (\<forall>e \<in> set es. lifecycle_of e = None) \<and>
                    processed_items r' = merge_all (processed_items r1) ms) \<and>
                 length codes' = length codes \<and> list_all (\<lambda>c. c \<noteq> None) codes' \<and>
                 comm_inbox r' = comm_inbox r1"
      for r1 e
    proof -
      from step [OF st] obtain es ms where a: "extends r r1 es []" "\<forall>e \<in> set es. lifecycle_of e = None"
        "processed_items r1 = merge_all (processed_items r) ms" "comm_inbox r1 = comm_inbox r"
        by blast
      from ih obtain es' ms' where b: "extends r1 r' es' []" "\<forall>e \<in> set es'. lifecycle_of e = None"
        "processed_items r' = merge_all (processed_items r1) ms'"
        by blast
      from extends_trans [OF a(1) b(1)] have "extends r r' (es @ es') []" by simp
      moreover have "\<forall>e \<in> set (es @ es'). lifecycle_of e = None" using a(2) b(2) by auto
      moreover have "processed_items r' = merge_all (processed_items r) (ms @ ms')"
        using a(3) b(3) by (simp add: merge_all_append)
      ultimately show ?thesis using ih a(4) by auto
    qed
    show ?thesis
    proof (cases "worker_step r0")
      case (Continue r1)
      with "1.prems" False have "run_pool codes r1 = (codes', r')"
        by (simp add: run_pool.simps [of codes r] r0_def Let_def)
      from "1.IH"(1) [OF False w_def r0_def Continue this] Continue rest [of r1]
      show ?thesis by simp
    next
      case (Stop r1)
      with "1.prems" False have "run_pool (codes[w := Some 0]) r1 = (codes', r')"
        by (simp add: run_pool.simps [of codes r] r0_def w_def Let_def)
      from "1.IH"(2) [OF False w_def r0_def Stop this] Stop rest [of r1]
      show ?thesis by simp
    next
      case (Die e r1)
      with "1.prems" False have "run_pool (codes[w := Some 1]) r1 = (codes', r')"
        by (simp add: run_pool.simps [of codes r] r0_def w_def Let_def)
      from "1.IH"(3) [OF False w_def r0_def Die this] Die rest [of r1 e]
      show ?thesis by simp
    qed
  qed
qed

subsection \<open>One run, in either backend\<close>

lemma mpi_block_eq:
  "mpi_block r i ps = run_block i (mpi_work r i) (merge_all Map.empty ps) (list_all (\<lambda>s. s) (status r))"
  by (simp add: mpi_block_def run_block_def mpi_work_def Let_def)

lemma lifecycle_mpi_work: "e \<in> set (mpi_work r i) \<Longrightarrow> lifecycle_of e = None"
  by (auto simp: mpi_work_def Let_def dest: lifecycle_send_events)

lemma feed_queue_extends:
  "extends r (feed_queue r i) [Connect i True, GetItems i] [] \<and>
   queue (feed_queue r i) = queue r @ map (Pair i) (get_items (builders r ! i)) \<and>
   processed_items (feed_queue r i) = processed_items r \<and>
   comm_inbox (feed_queue r i) = comm_inbox r"
  by (simp add: feed_queue_def Let_def extends_def emit_def)

lemma run_workers_Ok:
  assumes "run_workers r = Ok u r'"
  shows "\<exists>es ms. extends r r' es (worker_statuses r) \<and> (\<forall>e \<in> set es. lifecycle_of e = None) \<and>
           processed_items r' = merge_all (processed_items r) ms \<and> comm_inbox r' = comm_inbox r \<and>
           (\<not> num_workers r > 1 \<longrightarrow>
              queue r' = [] \<and> es = packet_events (queue r) \<and>
              ms = packet_results (builders r) (queue r))"
proof (cases "num_workers r > 1")
  case True
  obtain codes r1 where p: "run_pool (replicate (nat (num_workers r)) None) r = (codes, r1)"
    by (cases "run_pool (replicate (nat (num_workers r)) None) r")
  with assms True have r': "r' = r1\<lparr>status := status r1 @ map (\<lambda>code. code = Some 0) codes\<rparr>"
    by (simp add: run_workers_def)
  from run_pool_effect [OF p] obtain es ms where e: "extends r r1 es []"
    "\<forall>e \<in> set es. lifecycle_of e = None" "processed_items r1 = merge_all (processed_items r) ms"
    "comm_inbox r1 = comm_inbox r"
    by blast
  have "extends r r' es (worker_statuses r)"
    using e(1) True p by (simp add: r' extends_def worker_statuses_def)
  with e True show ?thesis
    by (intro exI [of _ es] exI [of _ ms]) (simp add: r')
next
  case False
  with assms obtain r1 where w: "worker r = Ok () r1" and r': "r' = r1\<lparr>status := status r1 @ [True]\<rparr>"
    by (auto simp: run_workers_def split: outcome.splits)
  from worker_Ok [OF w] have e: "extends r r1 (packet_events (queue r)) []" "queue r1 = []"
    "processed_items r1 = merge_all (processed_items r) (packet_results (builders r) (queue r))"
    "comm_inbox r1 = comm_inbox r"
    by simp_all
  have "extends r r' (packet_events (queue r)) (worker_statuses r)"
    using e(1) False by (simp add: r' extends_def worker_statuses_def)
  moreover have "\<forall>e \<in> set (packet_events (queue r)). lifecycle_of e = None"
    by (auto simp: packet_events_def)
  ultimately show ?thesis
    using e False
    by (intro exI [of _ "packet_events (queue r)"]
              exI [of _ "packet_results (builders r) (queue r)"]) (simp add: r')
qed

lemma run_builder_in_multiproc_Ok:
  assumes "run_builder_in_multiproc r i = Ok u r'"
  shows "i < length (builders r) \<and>
         (\<exists>work ms.
            extends r r' (run_block i work (processed_items r') (list_all (\<lambda>s. s) (status r')))
              (worker_statuses (feed_queue r i)) \<and>
            (\<forall>e \<in> set work. lifecycle_of e = None) \<and>
            processed_items r' = merge_all (processed_items r) ms \<and>
            (\<not> num_workers r > 1 \<longrightarrow>
               work = packet_events (queue r @ map (Pair i) (get_items (builders r ! i))) \<and>
               ms = packet_results (builders r) (queue r @ map (Pair i) (get_items (builders r ! i))) \<and>
               queue r' = [])) \<and>
         comm_inbox r' = comm_inbox r"
proof -
  let ?r1 = "feed_queue r i"
  from assms have i: "i < length (builders r)"
    by (auto simp: run_builder_in_multiproc_def split: if_splits)
  from assms i obtain r2 where w: "run_workers ?r1 = Ok () r2"
    and r': "r' = finish_builder i (processed_items r2) r2"
    by (auto simp: run_builder_in_multiproc_def split: outcome.splits)
  note f = feed_queue_extends [of r i]
  from run_workers_Ok [OF w] obtain es ms where e:
    "extends ?r1 r2 es (worker_statuses ?r1)" "\<forall>e \<in> set es. lifecycle_of e = None"
    "processed_items r2 = merge_all (processed_items ?r1) ms" "comm_inbox r2 = comm_inbox ?r1"
    "\<not> num_workers ?r1 > 1 \<longrightarrow> queue r2 = [] \<and> es = packet_events (queue ?r1) \<and>
        ms = packet_results (builders ?r1) (queue ?r1)"
    by blast
  note fb = finish_builder_extends [of r2 i "processed_items r2"]
  have st: "status r' = status r2"
    using fb by (simp add: r' extends_def)
  have "extends r r' (run_block i es (processed_items r') (list_all (\<lambda>s. s) (status r')))
          (worker_statuses ?r1)"
    using f e(1) fb unfolding st unfolding r' run_block_def extends_def by simp
  moreover have "processed_items r' = merge_all (processed_items r) ms"
    using fb e(3) f by (simp add: r')
  moreover have "comm_inbox r' = comm_inbox r"
    using fb e(4) f by (simp add: r')
  moreover have "\<not> num_workers r > 1 \<longrightarrow>
       es = packet_events (queue r @ map (Pair i) (get_items (builders r ! i))) \<and>
       ms = packet_results (builders r) (queue r @ map (Pair i) (get_items (builders r ! i))) \<and>
       queue r' = []"
    using e(5) f fb by (simp add: r' extends_def)
  ultimately show ?thesis using i e(2) by blast
qed

lemma run_builder_Ok:
  assumes "run_builder r i = Ok u r'"
  shows "i < length (builders r) \<and>
         (\<exists>work d ss. extends r r' (run_block i work d (list_all (\<lambda>s. s) (status r'))) ss \<and>
            (\<forall>e \<in> set work. lifecycle_of e = None))"
proof (cases "use_mpi r")
  case True
  with assms have m: "run_builder_in_mpi r i = Ok u r'" by (simp add: run_builder_def)
  from run_builder_in_mpi_Ok [OF m] obtain ps where i: "i < length (builders r)"
    and e: "extends r r' (mpi_block r i ps) (replicate (length ps) True)"
    by blast
  from e have "status r' = status r @ replicate (length ps) True" by (simp add: extends_def)
  then have "list_all (\<lambda>s. s) (status r') = list_all (\<lambda>s. s) (status r)"
    by (auto simp: list_all_iff)
  with e have "extends r r' (run_block i (mpi_work r i) (merge_all Map.empty ps)
                 (list_all (\<lambda>s. s) (status r'))) (replicate (length ps) True)"
    by (simp add: mpi_block_eq)
  with i lifecycle_mpi_work [of _ r i] show ?thesis by blast
next
  case False
  with assms have m: "run_builder_in_multiproc r i = Ok u r'" by (simp add: run_builder_def)
  from run_builder_in_multiproc_Ok [OF m] show ?thesis by blast
qed

section \<open>The Delta rule in sign-crossing mode\<close>

text \<open>
  C9. The spec string \<^verbatim>\<open>"+-"\<close> parses to the rule in sign-crossing mode. For every rule in
  that mode \<^verbatim>\<open>cmp(old, new)\<close> is true exactly when \<open>old < 0 < new\<close> or \<open>new < 0 < old\<close>, that
  is when exactly one of the two is strictly negative and the other is strictly
  positive; a zero endpoint never counts; the thresholds do not enter the result; and
  \<^verbatim>\<open>cmp(0, 1)\<close> and \<^verbatim>\<open>cmp(-1, 0)\<close> are false while \<^verbatim>\<open>cmp(-1, 1)\<close> is true.
\<close>

theorem Delta_sign_crossing:
  "Delta ''+-'' = Inr \<lparr>mode = SignCrossing, plus_threshold = None, minus_threshold = None,
                        inclusive = False, percentage = False\<rparr>
   \<and> (mode d = SignCrossing \<longrightarrow>
        (Delta_cmp d old new \<longleftrightarrow> (old < 0 \<and> 0 < new) \<or> (new < 0 \<and> 0 < old))
        \<and> (Delta_cmp d old new \<longleftrightarrow> ((old < 0) \<noteq> (new < 0)) \<and> (if old < 0 then 0 < new else 0 < old))
        \<and> (old = 0 \<or> new = 0 \<longrightarrow> \<not> Delta_cmp d old new)
        \<and> Delta_cmp (d\<lparr>plus_threshold := p, minus_threshold := m\<rparr>) old new = Delta_cmp d old new)
   \<and> (\<forall>d'. Delta ''+-'' = Inr d' \<longrightarrow>
         \<not> Delta_cmp d' 0 1 \<and> \<not> Delta_cmp d' (- 1) 0 \<and> Delta_cmp d' (- 1) 1)"
  by (auto simp: Delta_def read_sign_spec_def read_number_def Delta_cmp_def)


theorem Delta_sign_crossing_witness:
  "Delta ''+-'' = Inr \<lparr>mode = SignCrossing, plus_threshold = None, minus_threshold = None,
                        inclusive = False, percentage = False\<rparr>
   \<and> Delta_cmp \<lparr>mode = SignCrossing, plus_threshold = None, minus_threshold = None,
                 inclusive = False, percentage = False\<rparr> (- 1) 1
   \<and> \<not> Delta_cmp \<lparr>mode = SignCrossing, plus_threshold = None, minus_threshold = None,
                   inclusive = False, percentage = False\<rparr> 0 1
   \<and> \<not> Delta_cmp \<lparr>mode = SignCrossing, plus_threshold = None, minus_threshold = None,
                   inclusive = False, percentage = False\<rparr> (- 1) 0
   \<and> Delta_cmp \<lparr>mode = SignCrossing, plus_threshold = Some 5, minus_threshold = Some 7,
                 inclusive = True, percentage = True\<rparr> 2 (- 2)"
proof -
  let ?d = "\<lparr>mode = SignCrossing, plus_threshold = Some 5, minus_threshold = Some 7,
             inclusive = True, percentage = True\<rparr>"
  have m: "mode ?d = SignCrossing" by simp
  from Delta_sign_crossing [where d = ?d and old = 2 and new = "- 2" and p = None and m = None]
  have parsed: "Delta ''+-'' = Inr \<lparr>mode = SignCrossing, plus_threshold = None,
                  minus_threshold = None, inclusive = False, percentage = False\<rparr>"
    and crossing: "mode ?d = SignCrossing \<longrightarrow>
                     (Delta_cmp ?d 2 (- 2) \<longleftrightarrow> ((2::real) < 0 \<and> (0::real) < - 2) \<or> ((- 2::real) < 0 \<and> (0::real) < 2))"
    and table: "\<forall>d'. Delta ''+-'' = Inr d' \<longrightarrow>
                  \<not> Delta_cmp d' 0 1 \<and> \<not> Delta_cmp d' (- 1) 0 \<and> Delta_cmp d' (- 1) 1"
    by blast+
  from crossing m have "Delta_cmp ?d 2 (- 2)" by simp
  with parsed table show ?thesis by simp
qed

end
